theory Spec2Isabelle
  imports Main "HOL-Library.Sublist"
begin

section \<open>Python values used by the multipart decoder\<close>

text \<open>
  The decoder of \<^verbatim>\<open>requests_toolbelt/multipart/decoder.py\<close> works on two Python
  types: \<^verbatim>\<open>bytes\<close> (the payload, the boundary, header names and values) and
  \<^verbatim>\<open>str\<close> (the content-type header).  A byte is a \<^typ>\<open>char\<close> (8 bits), so
  \<^verbatim>\<open>bytes\<close> is \<^typ>\<open>char list\<close>.  A header value reaches the decoder decoded
  as ISO-8859-1, one code point below 256 per byte, so \<^verbatim>\<open>str\<close> is
  \<^typ>\<open>string\<close> as well, each \<^typ>\<open>char\<close> standing for that code point.
\<close>

type_synonym bytes = "char list"

definition CR :: char where
  "CR = CHR 0x0D"

definition LF :: char where
  "LF = CHR 0x0A"

definition CRLF :: bytes where
  "CRLF = [CR, LF]"

definition CRLFCRLF :: bytes where
  "CRLFCRLF = [CR, LF, CR, LF]"

text \<open>Every exception the decoder can leave through.\<close>

datatype error =
    ImproperBodyPartContentException
  | NonMultipartContentTypeException
  | AttributeError
  | LookupError
  | UnicodeEncodeError

subsection \<open>\<^verbatim>\<open>find\<close>, \<^verbatim>\<open>in\<close>, slices and \<^verbatim>\<open>split\<close>\<close>

text \<open>
  \<^verbatim>\<open>content.find(bound)\<close> is the lowest index at which \<^verbatim>\<open>bound\<close> occurs in
  \<^verbatim>\<open>content\<close>, and \<^verbatim>\<open>-1\<close> when there is none.  \<open>find_sub\<close> searches from the
  left; \<open>py_find\<close> gives Python's integer.
\<close>

fun find_sub :: "'a list \<Rightarrow> 'a list \<Rightarrow> nat option" where
  "find_sub sub [] = (if sub = [] then Some 0 else None)"
| "find_sub sub (x # xs) =
     (if prefix sub (x # xs) then Some 0 else map_option Suc (find_sub sub xs))"

definition py_find :: "'a list \<Rightarrow> 'a list \<Rightarrow> int" where
  "py_find content sub = (case find_sub sub content of None \<Rightarrow> - 1 | Some i \<Rightarrow> int i)"

text \<open>\<^verbatim>\<open>sub in content\<close>.\<close>

definition contains :: "'a list \<Rightarrow> 'a list \<Rightarrow> bool" where
  "contains sub content = (find_sub sub content \<noteq> None)"

text \<open>
  The slices \<^verbatim>\<open>xs[:i]\<close> and \<^verbatim>\<open>xs[i:]\<close>: a negative index counts from the end,
  and an index out of range is clamped.
\<close>

definition slice_to :: "'a list \<Rightarrow> int \<Rightarrow> 'a list" where
  "slice_to xs i = (if i < 0 then take (nat (int (length xs) + i)) xs else take (nat i) xs)"

definition slice_from :: "'a list \<Rightarrow> int \<Rightarrow> 'a list" where
  "slice_from xs i = (if i < 0 then drop (nat (int (length xs) + i)) xs else drop (nat i) xs)"

text \<open>
  \<^verbatim>\<open>content.split(sep)\<close>: cut at the first occurrence of the separator, then go on
  behind it.  Python raises \<^verbatim>\<open>ValueError\<close> for an empty separator; the decoder
  only splits on \<^verbatim>\<open>';'\<close>, \<^verbatim>\<open>'/'\<close>, CRLF and \<^verbatim>\<open>--boundary\r\n\<close>, none of them
  empty, and \<open>py_split\<close> returns the text uncut in that case.
\<close>

function py_split :: "'a list \<Rightarrow> 'a list \<Rightarrow> 'a list list" where
  "py_split sep xs =
     (if sep = [] then [xs]
      else case find_sub sep xs of
             None \<Rightarrow> [xs]
           | Some i \<Rightarrow> take i xs # py_split sep (drop (i + length sep) xs))"
  by pat_completeness auto

lemma find_sub_bound: "find_sub sub xs = Some i \<Longrightarrow> i + length sub \<le> length xs"
proof (induction xs arbitrary: i)
  case Nil
  then show ?case by (simp split: if_splits)
next
  case (Cons x xs)
  show ?case
  proof (cases "prefix sub (x # xs)")
    case True
    with Cons.prems show ?thesis by (auto dest: prefix_length_le)
  next
    case False
    with Cons.prems obtain j where "find_sub sub xs = Some j" "i = Suc j" by auto
    with Cons.IH show ?thesis by fastforce
  qed
qed

termination py_split
proof (relation "measure (\<lambda>(sep, xs). length xs)")
  show "wf (measure (\<lambda>(sep :: 'a list, xs :: 'a list). length xs))" by simp
next
  fix sep xs :: "'a list" and i
  assume "sep \<noteq> []" and "find_sub sep xs = Some i"
  then have "i + length sep \<le> length xs" and "0 < length sep"
    by (simp_all add: find_sub_bound)
  then have "0 < length xs" and "0 < i + length sep" by linarith+
  then show "((sep, drop (i + length sep) xs), (sep, xs)) \<in> measure (\<lambda>(sep, xs). length xs)"
    by simp
qed

declare py_split.simps [simp del]

subsection \<open>\<^verbatim>\<open>strip\<close> and \<^verbatim>\<open>lower\<close>\<close>

text \<open>
  \<^verbatim>\<open>str.strip()\<close> removes leading and trailing whitespace.  Below 256 the code
  points with \<^verbatim>\<open>isspace()\<close> are 9 to 13, 28 to 32, 133 and 160.
\<close>

definition isspace :: "char \<Rightarrow> bool" where
  "isspace c = (let n = (of_char c :: nat)
                in (9 \<le> n \<and> n \<le> 13) \<or> (28 \<le> n \<and> n \<le> 32) \<or> n = 133 \<or> n = 160)"

definition strip_with :: "(char \<Rightarrow> bool) \<Rightarrow> string \<Rightarrow> string" where
  "strip_with p s = rev (dropWhile p (rev (dropWhile p s)))"

definition py_strip :: "string \<Rightarrow> string" where
  "py_strip s = strip_with isspace s"

text \<open>\<^verbatim>\<open>s.strip(chars)\<close> removes the leading and trailing characters that are in \<^verbatim>\<open>chars\<close>.\<close>

definition py_strip_chars :: "string \<Rightarrow> string \<Rightarrow> string" where
  "py_strip_chars s chars = strip_with (\<lambda>c. c \<in> set chars) s"

text \<open>
  \<^verbatim>\<open>str.lower()\<close> below 256: the letters A to Z, and the letters 192 to 222 other
  than the multiplication sign 215, move up by 32.  \<^verbatim>\<open>bytes.lower()\<close> changes the
  ASCII letters only.
\<close>

definition str_lower_char :: "char \<Rightarrow> char" where
  "str_lower_char c = (let n = (of_char c :: nat)
                       in if (65 \<le> n \<and> n \<le> 90) \<or> (192 \<le> n \<and> n \<le> 222 \<and> n \<noteq> 215)
                          then char_of (n + 32) else c)"

definition str_lower :: "string \<Rightarrow> string" where
  "str_lower s = map str_lower_char s"

definition bytes_lower_char :: "char \<Rightarrow> char" where
  "bytes_lower_char c = (let n = (of_char c :: nat)
                         in if 65 \<le> n \<and> n \<le> 90 then char_of (n + 32) else c)"

definition bytes_lower :: "bytes \<Rightarrow> bytes" where
  "bytes_lower b = map bytes_lower_char b"

subsection \<open>Dictionaries\<close>

text \<open>
  A Python \<^verbatim>\<open>dict\<close> keeps its keys in insertion order; assigning to a key that is
  present replaces the value where it stands.
\<close>

fun dict_set :: "('k \<times> 'v) list \<Rightarrow> 'k \<Rightarrow> 'v \<Rightarrow> ('k \<times> 'v) list" where
  "dict_set [] k v = [(k, v)]"
| "dict_set ((k', v') # d) k v = (if k' = k then (k, v) # d else (k', v') # dict_set d k v)"

text \<open>
  \<^verbatim>\<open>CaseInsensitiveDict\<close> comes from the \<^verbatim>\<open>requests\<close> library: built from a
  dictionary, it stores under the lower-cased key the pair of the key as given and the
  value, in the dictionary's order.
\<close>

type_synonym case_insensitive_dict = "(bytes \<times> (bytes \<times> bytes)) list"

definition CaseInsensitiveDict :: "(bytes \<times> bytes) list \<Rightarrow> case_insensitive_dict" where
  "CaseInsensitiveDict data = foldl (\<lambda>store (k, v). dict_set store (bytes_lower k) (k, v)) [] data"

section \<open>The decoder\<close>

subsection \<open>\<^verbatim>\<open>_split_on_find\<close>\<close>

text \<open>
  \<^verbatim>\<open>
  def _split_on_find(content, bound):
      point = content.find(bound)
      return content[:point], content[point + len(bound):]
  \<close>
  When \<^verbatim>\<open>bound\<close> does not occur, \<^verbatim>\<open>point\<close> is \<^verbatim>\<open>-1\<close> and the slices are taken
  at \<^verbatim>\<open>-1\<close> and at \<^verbatim>\<open>len(bound) - 1\<close>.
\<close>

definition split_on_find :: "'a list \<Rightarrow> 'a list \<Rightarrow> 'a list \<times> 'a list" where
  "split_on_find content bound =
     (let point = py_find content bound
      in (slice_to content point, slice_from content (point + int (length bound))))"

subsection \<open>\<^verbatim>\<open>BodyPart\<close>\<close>

record 'e BodyPart =
  headers :: case_insensitive_dict
  content :: bytes
  encoding :: 'e

text \<open>The loop over the lines of the header block, filling the dictionary \<^verbatim>\<open>headers\<close>.\<close>

fun header_lines :: "bytes list \<Rightarrow> (bytes \<times> bytes) list \<Rightarrow> (bytes \<times> bytes) list" where
  "header_lines [] hs = hs"
| "header_lines (line # ls) hs =
     header_lines ls
       (if contains '': '' line
        then (case split_on_find line '': '' of (h_key, h_value) \<Rightarrow> dict_set hs h_key h_value)
        else hs)"

definition header_block :: "bytes \<Rightarrow> (bytes \<times> bytes) list" where
  "header_block first = (if first \<noteq> [] then header_lines (py_split CRLF first) [] else [])"

definition BodyPart_init :: "bytes \<Rightarrow> 'e \<Rightarrow> error + 'e BodyPart" where
  "BodyPart_init cont enc =
     (if contains CRLFCRLF cont then
        (case split_on_find cont CRLFCRLF of
           (first, rest) \<Rightarrow>
             Inr \<lparr>headers = CaseInsensitiveDict (header_block first), content = rest,
                  encoding = enc\<rparr>)
      else if CRLF = slice_to cont 2 then
        Inr \<lparr>headers = CaseInsensitiveDict [], content = slice_from cont 2, encoding = enc\<rparr>
      else Inl ImproperBodyPartContentException)"

text \<open>
  \<^verbatim>\<open>
  def __eq__(self, other):
      try:
          ans = self.content == other.content
      except AttributeError:
          ans = self.content == other
      return ans
  \<close>
  The other operand is a \<^verbatim>\<open>BodyPart\<close>, which has the attribute \<^verbatim>\<open>content\<close>, or
  a \<^verbatim>\<open>bytes\<close> value, which has not.
\<close>

datatype 'e operand = Part "'e BodyPart" | Raw bytes

definition getattr_content :: "'e operand \<Rightarrow> error + bytes" where
  "getattr_content other = (case other of Part q \<Rightarrow> Inr (content q) | Raw b \<Rightarrow> Inl AttributeError)"

definition BodyPart_eq :: "'e BodyPart \<Rightarrow> 'e operand \<Rightarrow> bool" where
  "BodyPart_eq self other =
     (case getattr_content other of
        Inr c \<Rightarrow> content self = c
      | Inl _ \<Rightarrow> (case other of Raw b \<Rightarrow> content self = b | Part q \<Rightarrow> False))"

subsection \<open>\<^verbatim>\<open>MultipartDecoder\<close>\<close>

record 'e MultipartDecoder =
  m_content :: bytes
  content_type :: string
  m_encoding :: 'e
  boundary :: bytes
  parts :: "'e BodyPart list"

text \<open>
  \<^verbatim>\<open>_find_boundary\<close>.  The helper \<^verbatim>\<open>encode_with(string, encoding)\<close> lives in
  \<^verbatim>\<open>encoder.py\<close> and is a parameter here: it gives the bytes of a string in the
  encoding, or the exception of the codec.  The loop over the attributes keeps the
  boundary found so far; an attribute assigns \<^verbatim>\<open>self.boundary\<close> each time its name
  is \<^verbatim>\<open>boundary\<close>.  A split is never the empty list (\<open>py_split_not_Nil\<close> below),
  so the element \<^verbatim>\<open>[0]\<close> exists and is the head.
\<close>

fun boundary_loop ::
  "(string \<Rightarrow> 'e \<Rightarrow> error + bytes) \<Rightarrow> 'e \<Rightarrow> string list \<Rightarrow> bytes option \<Rightarrow> error + bytes option"
where
  "boundary_loop encode_with enc [] b = Inr b"
| "boundary_loop encode_with enc (item # items) b =
     (case split_on_find item ''='' of
        (attr, val) \<Rightarrow>
          if str_lower attr = ''boundary''
          then (case encode_with (py_strip_chars val [CHR 0x22]) enc of
                  Inl e \<Rightarrow> Inl e
                | Inr b' \<Rightarrow> boundary_loop encode_with enc items (Some b'))
          else boundary_loop encode_with enc items b)"

definition ct_info :: "string \<Rightarrow> string list" where
  "ct_info ct = map py_strip (py_split '';'' ct)"

definition find_boundary ::
  "(string \<Rightarrow> 'e \<Rightarrow> error + bytes) \<Rightarrow> string \<Rightarrow> 'e \<Rightarrow> error + bytes option"
where
  "find_boundary encode_with ct enc =
     (let mimetype = hd (ct_info ct)
      in if hd (py_split ''/'' mimetype) \<noteq> ''multipart''
         then Inl NonMultipartContentTypeException
         else boundary_loop encode_with enc (drop 1 (ct_info ct)) None)"

text \<open>
  \<^verbatim>\<open>
  def _fix_last_part(cls, part, end_marker):
      if end_marker in part:
          return part[:part.find(end_marker)]
      else:
          return part
  \<close>
\<close>

definition fix_last_part :: "bytes \<Rightarrow> bytes \<Rightarrow> bytes" where
  "fix_last_part part end_marker =
     (if contains end_marker part then slice_to part (py_find part end_marker) else part)"

definition separator :: "bytes \<Rightarrow> bytes" where
  "separator b = ''--'' @ b @ CRLF"

definition end_marker :: "bytes \<Rightarrow> bytes" where
  "end_marker b = CRLF @ ''--'' @ b @ ''--''"

text \<open>
  The list comprehension of \<^verbatim>\<open>_parse_body\<close>, over the fragments \<^verbatim>\<open>x\<close> of the
  split: a fragment that is empty or a lone CRLF is skipped, every other one loses its
  last two bytes (\<^verbatim>\<open>x[:-2]\<close>), is cut at the end marker and becomes a \<^verbatim>\<open>BodyPart\<close>.
  The first \<^verbatim>\<open>BodyPart\<close> that raises ends the comprehension.
\<close>

fun build_parts :: "bytes \<Rightarrow> 'e \<Rightarrow> bytes list \<Rightarrow> error + 'e BodyPart list" where
  "build_parts b enc [] = Inr []"
| "build_parts b enc (x # xs) =
     (if x \<noteq> [] \<and> x \<noteq> CRLF then
        (case BodyPart_init (fix_last_part (slice_to x (- 2)) (end_marker b)) enc of
           Inl e \<Rightarrow> Inl e
         | Inr p \<Rightarrow> (case build_parts b enc xs of Inl e \<Rightarrow> Inl e | Inr ps \<Rightarrow> Inr (p # ps)))
      else build_parts b enc xs)"

definition parse_body :: "bytes \<Rightarrow> 'e \<Rightarrow> bytes \<Rightarrow> error + 'e BodyPart list" where
  "parse_body b enc cont = build_parts b enc (py_split (separator b) cont)"

text \<open>
  \<^verbatim>\<open>__init__\<close>: \<^verbatim>\<open>_find_boundary\<close>, then \<^verbatim>\<open>_parse_body\<close>.  When no attribute
  named \<^verbatim>\<open>boundary\<close> was met, \<^verbatim>\<open>self.boundary\<close> does not exist and
  \<^verbatim>\<open>_parse_body\<close> raises \<^verbatim>\<open>AttributeError\<close>.
\<close>

definition MultipartDecoder_init ::
  "(string \<Rightarrow> 'e \<Rightarrow> error + bytes) \<Rightarrow> bytes \<Rightarrow> string \<Rightarrow> 'e \<Rightarrow> error + 'e MultipartDecoder"
where
  "MultipartDecoder_init encode_with cont ct enc =
     (case find_boundary encode_with ct enc of
        Inl e \<Rightarrow> Inl e
      | Inr None \<Rightarrow> Inl AttributeError
      | Inr (Some b) \<Rightarrow>
          (case parse_body b enc cont of
             Inl e \<Rightarrow> Inl e
           | Inr ps \<Rightarrow>
               Inr \<lparr>m_content = cont, content_type = ct, m_encoding = enc, boundary = b,
                    parts = ps\<rparr>))"

text \<open>
  \<^verbatim>\<open>from_response\<close>: the header lookup gives \<^verbatim>\<open>None\<close> when the response has no
  content type, and \<^verbatim>\<open>None.split\<close> raises \<^verbatim>\<open>AttributeError\<close>.
\<close>

definition from_response ::
  "(string \<Rightarrow> 'e \<Rightarrow> error + bytes) \<Rightarrow> bytes \<Rightarrow> string option \<Rightarrow> 'e \<Rightarrow> error + 'e MultipartDecoder"
where
  "from_response encode_with response_content response_content_type enc =
     (case response_content_type of
        None \<Rightarrow> Inl AttributeError
      | Some ct \<Rightarrow> MultipartDecoder_init encode_with response_content ct enc)"

text \<open>
  The codec \<^verbatim>\<open>latin-1\<close> maps each code point below 256 to the byte of the same
  number, and every other codec name is unknown to \<open>latin1_only\<close>: an
  \<^verbatim>\<open>encode_with\<close> for the examples.
\<close>

definition latin1_only :: "string \<Rightarrow> string \<Rightarrow> error + bytes" where
  "latin1_only s enc = (if enc = ''latin-1'' then Inr s else Inl LookupError)"

section \<open>Facts about \<^verbatim>\<open>find\<close>, slices and \<^verbatim>\<open>split\<close>\<close>

lemma find_sub_None_iff: "find_sub s xs = None \<longleftrightarrow> \<not> sublist s xs"
  by (induction xs) (auto simp: sublist_Cons_right)

lemma contains_iff_sublist: "contains s xs \<longleftrightarrow> sublist s xs"
  by (simp add: contains_def find_sub_None_iff)

lemma find_sub_Some_decomp:
  "find_sub s xs = Some i \<Longrightarrow> xs = take i xs @ s @ drop (i + length s) xs"
proof (induction xs arbitrary: i)
  case Nil
  then show ?case by (simp split: if_splits)
next
  case (Cons x xs)
  show ?case
  proof (cases "prefix s (x # xs)")
    case True
    with Cons.prems have "i = 0" by simp
    with True show ?thesis by (auto simp: prefix_def)
  next
    case False
    with Cons.prems obtain j where j: "find_sub s xs = Some j" "i = Suc j" by auto
    from Cons.IH [OF j(1)] j(2) show ?thesis by simp
  qed
qed

lemma find_sub_least:
  "find_sub s xs = Some i \<Longrightarrow> xs = ps @ s @ ss \<Longrightarrow> i \<le> length ps"
proof (induction xs arbitrary: i ps)
  case Nil
  then show ?case by simp
next
  case (Cons x xs)
  show ?case
  proof (cases "prefix s (x # xs)")
    case True
    with Cons.prems(1) have "i = 0" by simp
    then show ?thesis by simp
  next
    case False
    with Cons.prems(1) obtain j where j: "find_sub s xs = Some j" "i = Suc j" by auto
    from False Cons.prems(2) obtain ps' where ps': "ps = x # ps'" "xs = ps' @ s @ ss"
      by (cases ps) (auto simp: prefix_def)
    from Cons.IH [OF j(1) ps'(2)] j(2) ps'(1) show ?thesis by simp
  qed
qed

lemma find_sub_eqI:
  assumes "xs = ps @ s @ ss"
    and "\<And>ps' ss'. xs = ps' @ s @ ss' \<Longrightarrow> length ps \<le> length ps'"
  shows "find_sub s xs = Some (length ps)"
proof -
  from assms(1) have "sublist s xs" by (auto simp: sublist_def)
  then obtain i where i: "find_sub s xs = Some i"
    using find_sub_None_iff [of s xs] by (cases "find_sub s xs") auto
  from find_sub_least [OF i assms(1)] have "i \<le> length ps" .
  moreover from find_sub_Some_decomp [OF i] find_sub_bound [OF i]
  have "length ps \<le> i" using assms(2) [of "take i xs" "drop (i + length s) xs"] by simp
  ultimately show ?thesis using i by simp
qed

lemma py_split_not_Nil: "py_split sep xs \<noteq> []"
  by (subst py_split.simps) (simp split: option.splits)

lemma find_sub_first_occurrence:
  assumes "xs = ps @ s @ ss" and "\<not> sublist s (butlast (ps @ s))"
  shows "find_sub s xs = Some (length ps)"
proof (rule find_sub_eqI [OF assms(1)])
  fix ps' ss'
  assume eq: "xs = ps' @ s @ ss'"
  show "length ps \<le> length ps'"
  proof (rule ccontr)
    assume "\<not> length ps \<le> length ps'"
    then have less: "length ps' < length ps" by simp
    have "ps' @ s = take (length (ps' @ s)) xs" using eq by simp
    also have "\<dots> = take (length (ps' @ s)) (take (length (ps @ s) - 1) xs)"
      using less by (simp add: min_def)
    also have "take (length (ps @ s) - 1) xs = butlast (ps @ s)"
      using assms(1) less by (simp add: butlast_conv_take)
    finally have "prefix (ps' @ s) (butlast (ps @ s))"
      by (metis take_is_prefix)
    then have "sublist s (butlast (ps @ s))"
      by (metis prefix_def sublist_appendI append.assoc)
    with assms(2) show False by simp
  qed
qed

lemma split_on_find_Some:
  "find_sub bound cont = Some i \<Longrightarrow>
   split_on_find cont bound = (take i cont, drop (i + length bound) cont)"
  by (simp add: split_on_find_def py_find_def slice_to_def slice_from_def nat_add_distrib)

lemma split_on_find_first_occurrence:
  "\<not> sublist s (butlast (ps @ s)) \<Longrightarrow> split_on_find (ps @ s @ ss) s = (ps, ss)"
  using find_sub_first_occurrence [of "ps @ s @ ss" ps s ss]
  by (simp add: split_on_find_Some)

lemma first_occurrence_exists:
  assumes "find_sub s xs = Some i" and "s \<noteq> []"
  shows "xs = take i xs @ s @ drop (i + length s) xs \<and> \<not> sublist s (butlast (take i xs @ s))"
proof
  show dec: "xs = take i xs @ s @ drop (i + length s) xs"
    by (rule find_sub_Some_decomp [OF assms(1)])
  show "\<not> sublist s (butlast (take i xs @ s))"
  proof
    assume "sublist s (butlast (take i xs @ s))"
    then obtain ps ss where b: "butlast (take i xs @ s) = ps @ s @ ss"
      by (auto simp: sublist_def)
    from find_sub_bound [OF assms(1)] have len: "length (take i xs) = i" by simp
    from b have "length (butlast (take i xs @ s)) = length (ps @ s @ ss)" by simp
    with len assms(2) have lt: "length ps < i" by (cases s) auto
    have "take i xs @ s = butlast (take i xs @ s) @ [last (take i xs @ s)]"
      using lt len by (cases "take i xs @ s = []") auto
    with b dec have "xs = ps @ s @ (ss @ [last (take i xs @ s)] @ drop (i + length s) xs)"
      by (metis append.assoc)
    from find_sub_least [OF assms(1) this] lt show False by simp
  qed
qed

lemma header_lines_append:
  "header_lines (xs @ ys) hs = header_lines ys (header_lines xs hs)"
  by (induction xs arbitrary: hs) simp_all

lemma take2_prefix: "(CRLF = slice_to c 2) = prefix CRLF c"
  by (cases c; cases "tl c") (auto simp: slice_to_def CRLF_def)

lemma slice_from_2: "slice_from c 2 = drop 2 c"
  by (simp add: slice_from_def)

lemma CaseInsensitiveDict_Nil: "CaseInsensitiveDict [] = []"
  by (simp add: CaseInsensitiveDict_def)

section \<open>Equality of body parts\<close>

text \<open>
  C8.  Two body parts are equal exactly when their raw contents are equal, whatever
  their headers and encodings; a body part equals a raw byte value exactly when its raw
  content is that value.
\<close>

theorem BodyPart_eq_content:
  "BodyPart_eq p (Part q) = (content p = content q) \<and> BodyPart_eq p (Raw b) = (content p = b)"
  by (simp add: BodyPart_eq_def getattr_content_def)

section \<open>The two shapes of a part fragment\<close>

text \<open>
  C4.  A fragment that contains CRLF CRLF is cut at the first occurrence: the header block
  is the prefix before it and the content is the suffix behind it.  A fragment without
  CRLF CRLF that begins with CRLF has the bytes behind that CRLF as its content, and an
  empty header map.
\<close>

theorem BodyPart_init_shape:
  "(contains CRLFCRLF c \<longrightarrow>
      (\<exists>first rest. c = first @ CRLFCRLF @ rest \<and>
         \<not> contains CRLFCRLF (butlast (first @ CRLFCRLF)) \<and>
         BodyPart_init c enc =
           Inr \<lparr>headers = CaseInsensitiveDict (header_block first), content = rest,
                encoding = enc\<rparr>)) \<and>
   (\<not> contains CRLFCRLF c' \<and> prefix CRLF c' \<longrightarrow>
      BodyPart_init c' enc = Inr \<lparr>headers = [], content = drop 2 c', encoding = enc\<rparr>)"
proof (intro conjI impI)
  assume "contains CRLFCRLF c"
  then obtain i where i: "find_sub CRLFCRLF c = Some i"
    by (auto simp: contains_def)
  let ?first = "take i c" and ?rest = "drop (i + length CRLFCRLF) c"
  have "CRLFCRLF \<noteq> []" by (simp add: CRLFCRLF_def)
  from first_occurrence_exists [OF i this]
  have "c = ?first @ CRLFCRLF @ ?rest"
    and "\<not> contains CRLFCRLF (butlast (?first @ CRLFCRLF))"
    by (simp_all add: contains_iff_sublist)
  moreover have "BodyPart_init c enc =
      Inr \<lparr>headers = CaseInsensitiveDict (header_block ?first), content = ?rest, encoding = enc\<rparr>"
    using i \<open>contains CRLFCRLF c\<close> by (simp add: BodyPart_init_def split_on_find_Some)
  ultimately show "\<exists>first rest. c = first @ CRLFCRLF @ rest \<and>
         \<not> contains CRLFCRLF (butlast (first @ CRLFCRLF)) \<and>
         BodyPart_init c enc =
           Inr \<lparr>headers = CaseInsensitiveDict (header_block first), content = rest,
                encoding = enc\<rparr>"
    by blast
next
  assume "\<not> contains CRLFCRLF c' \<and> prefix CRLF c'"
  then show "BodyPart_init c' enc = Inr \<lparr>headers = [], content = drop 2 c', encoding = enc\<rparr>"
    by (simp add: BodyPart_init_def take2_prefix slice_from_2 CaseInsensitiveDict_Nil)
qed

theorem BodyPart_init_shape_witness:
  "contains CRLFCRLF (''A: b'' @ CRLFCRLF @ ''xy'') \<and>
   (\<exists>first rest. ''A: b'' @ CRLFCRLF @ ''xy'' = first @ CRLFCRLF @ rest \<and>
      \<not> contains CRLFCRLF (butlast (first @ CRLFCRLF)) \<and>
      BodyPart_init (''A: b'' @ CRLFCRLF @ ''xy'') ''utf-8'' =
        Inr \<lparr>headers = CaseInsensitiveDict (header_block first), content = rest,
             encoding = ''utf-8''\<rparr>) \<and>
   \<not> contains CRLFCRLF (CRLF @ ''xy'') \<and> prefix CRLF (CRLF @ ''xy'') \<and>
   BodyPart_init (CRLF @ ''xy'') ''utf-8'' =
     Inr \<lparr>headers = [], content = ''xy'', encoding = ''utf-8''\<rparr>"
proof -
  have h1: "contains CRLFCRLF (''A: b'' @ CRLFCRLF @ ''xy'')" by code_simp
  have h2: "\<not> contains CRLFCRLF (CRLF @ ''xy'')" by code_simp
  have h3: "prefix CRLF (CRLF @ ''xy'')" by simp
  have h4: "drop 2 (CRLF @ ''xy'') = ''xy''" by (simp add: CRLF_def)
  from BodyPart_init_shape [of "''A: b'' @ CRLFCRLF @ ''xy''" "''utf-8''" "CRLF @ ''xy''"]
    h1 h2 h3 h4
  show ?thesis by simp
qed

section \<open>Improper fragments\<close>

lemma BodyPart_init_contains:
  "contains CRLFCRLF c \<Longrightarrow> \<exists>p. BodyPart_init c enc = Inr p"
  by (simp add: BodyPart_init_def split: prod.splits)

lemma BodyPart_init_error:
  "BodyPart_init c enc = Inl e \<Longrightarrow> e = ImproperBodyPartContentException"
  by (auto simp: BodyPart_init_def split: prod.splits if_splits)

lemma BodyPart_init_improper:
  "\<not> contains CRLFCRLF c \<Longrightarrow> \<not> prefix CRLF c \<Longrightarrow>
   BodyPart_init c enc = Inl ImproperBodyPartContentException"
  by (simp add: BodyPart_init_def take2_prefix)

lemma build_parts_error:
  "build_parts b enc xs = Inl e \<Longrightarrow> e = ImproperBodyPartContentException"
  by (induction xs) (auto split: if_splits sum.splits dest: BodyPart_init_error)

lemma build_parts_fails:
  assumes "x \<in> set xs" and "x \<noteq> []" and "x \<noteq> CRLF"
    and "BodyPart_init (fix_last_part (slice_to x (- 2)) (end_marker b)) enc = Inl e"
  shows "\<exists>e'. build_parts b enc xs = Inl e'"
  using assms(1)
proof (induction xs)
  case Nil
  then show ?case by simp
next
  case (Cons y ys)
  show ?case
  proof (cases "y = x")
    case True
    with assms(2-4) show ?thesis by simp
  next
    case False
    with Cons obtain e' where "build_parts b enc ys = Inl e'" by auto
    then show ?thesis by (simp split: sum.splits)
  qed
qed

text \<open>
  C2.  When a fragment handed to \<^verbatim>\<open>BodyPart\<close> neither contains CRLF CRLF nor begins
  with CRLF, the construction of the decoder fails with
  \<^verbatim>\<open>ImproperBodyPartContentException\<close>: the result is the exception, and no
  decoder and no list of parts.  The fragment handed over is a retained fragment of
  the split without its last two bytes, cut at the end marker.
\<close>

theorem improper_fragment_aborts:
  assumes "find_boundary encode_with ct enc = Inr (Some b)"
    and "x \<in> set (py_split (separator b) cont)" and "x \<noteq> []" and "x \<noteq> CRLF"
    and "fragment = fix_last_part (slice_to x (- 2)) (end_marker b)"
    and "\<not> contains CRLFCRLF fragment" and "\<not> prefix CRLF fragment"
  shows "MultipartDecoder_init encode_with cont ct enc = Inl ImproperBodyPartContentException"
proof -
  from assms(5-7) have "BodyPart_init (fix_last_part (slice_to x (- 2)) (end_marker b)) enc =
      Inl ImproperBodyPartContentException"
    by (simp add: BodyPart_init_improper)
  from build_parts_fails [OF assms(2-4) this]
  obtain e' where e': "parse_body b enc cont = Inl e'"
    by (auto simp: parse_body_def)
  then have "e' = ImproperBodyPartContentException"
    by (auto simp: parse_body_def dest: build_parts_error)
  with e' assms(1) show ?thesis
    by (simp add: MultipartDecoder_init_def)
qed

theorem improper_fragment_aborts_witness:
  "find_boundary latin1_only ''multipart/form-data; boundary=B'' ''latin-1'' = Inr (Some ''B'') \<and>
   ''abc'' @ CRLF \<in> set (py_split (separator ''B'') (''--B'' @ CRLF @ ''abc'' @ CRLF)) \<and>
   ''abc'' @ CRLF \<noteq> [] \<and> ''abc'' @ CRLF \<noteq> CRLF \<and>
   ''abc'' = fix_last_part (slice_to (''abc'' @ CRLF) (- 2)) (end_marker ''B'') \<and>
   \<not> contains CRLFCRLF ''abc'' \<and> \<not> prefix CRLF ''abc'' \<and>
   MultipartDecoder_init latin1_only (''--B'' @ CRLF @ ''abc'' @ CRLF)
     ''multipart/form-data; boundary=B'' ''latin-1'' = Inl ImproperBodyPartContentException"
proof -
  have h1: "find_boundary latin1_only ''multipart/form-data; boundary=B'' ''latin-1'' = Inr (Some ''B'')"
    by code_simp
  have "py_split (separator ''B'') (''--B'' @ CRLF @ ''abc'' @ CRLF) = [Nil, ''abc'' @ CRLF]"
    by code_simp
  then have h2: "''abc'' @ CRLF \<in> set (py_split (separator ''B'') (''--B'' @ CRLF @ ''abc'' @ CRLF))"
    by simp
  have h3: "''abc'' @ CRLF \<noteq> []" by simp
  have h4: "''abc'' @ CRLF \<noteq> CRLF" by (simp add: CRLF_def)
  have h5: "''abc'' = fix_last_part (slice_to (''abc'' @ CRLF) (- 2)) (end_marker ''B'')"
    by code_simp
  have h6: "\<not> contains CRLFCRLF ''abc''" by code_simp
  have h7: "\<not> prefix CRLF ''abc''" by (simp add: CRLF_def CR_def)
  from improper_fragment_aborts [OF h1 h2 h3 h4 h5 h6 h7] h1 h2 h3 h4 h5 h6 h7
  show ?thesis by blast
qed

section \<open>The content type\<close>

text \<open>
  C3.  When the top-level type of the first token of the content type, the text before
  the slash, is not \<^verbatim>\<open>multipart\<close>, the construction of the decoder fails with
  \<^verbatim>\<open>NonMultipartContentTypeException\<close>; so it does for \<^verbatim>\<open>application/json\<close>.
  The token is the text before the first semicolon without its surrounding whitespace.
\<close>

theorem non_multipart_content_type:
  "(hd (py_split ''/'' (hd (ct_info ct))) \<noteq> ''multipart'' \<longrightarrow>
      MultipartDecoder_init encode_with cont ct enc = Inl NonMultipartContentTypeException) \<and>
   MultipartDecoder_init encode_with cont ''application/json'' enc =
     Inl NonMultipartContentTypeException"
proof -
  have gen: "MultipartDecoder_init encode_with cont t enc = Inl NonMultipartContentTypeException"
    if "hd (py_split ''/'' (hd (ct_info t))) \<noteq> ''multipart''" for t
    using that by (simp add: MultipartDecoder_init_def find_boundary_def)
  have "hd (py_split ''/'' (hd (ct_info ''application/json''))) = ''application''"
    by code_simp
  then have "hd (py_split ''/'' (hd (ct_info ''application/json''))) \<noteq> ''multipart''"
    by simp
  with gen show ?thesis by blast
qed

theorem non_multipart_content_type_witness:
  "hd (py_split ''/'' (hd (ct_info ''text/plain; boundary=B''))) \<noteq> ''multipart'' \<and>
   MultipartDecoder_init latin1_only (''--B'' @ CRLF @ CRLF @ ''abc'' @ CRLF)
     ''text/plain; boundary=B'' ''latin-1'' = Inl NonMultipartContentTypeException"
proof -
  have "hd (py_split ''/'' (hd (ct_info ''text/plain; boundary=B''))) = ''text''"
    by code_simp
  then have h: "hd (py_split ''/'' (hd (ct_info ''text/plain; boundary=B''))) \<noteq> ''multipart''"
    by simp
  from non_multipart_content_type
    [of "''text/plain; boundary=B''" latin1_only "''--B'' @ CRLF @ CRLF @ ''abc'' @ CRLF" "''latin-1''"] h
  show ?thesis by blast
qed

section \<open>Header lines\<close>

lemma header_line_ignored:
  "\<not> contains '': '' l \<Longrightarrow> header_lines (ls1 @ l # ls2) hs = header_lines (ls1 @ ls2) hs"
  by (simp add: header_lines_append)

lemma header_block_ignored:
  assumes "py_split CRLF first = ls1 @ l # ls2" and "\<not> contains '': '' l"
  shows "header_block first = header_lines (ls1 @ ls2) []"
proof (cases "first = []")
  case True
  then have "py_split CRLF first = [Nil]"
    by (subst py_split.simps) (simp add: CRLF_def)
  with assms(1) have "ls1 = []" "ls2 = []"
    by (auto simp: append_eq_Cons_conv Cons_eq_append_conv)
  with True show ?thesis by (simp add: header_block_def)
next
  case False
  with assms show ?thesis by (simp add: header_block_def header_line_ignored)
qed

text \<open>
  C10.  In a fragment whose header block is parsed, a line of the block without the two
  bytes colon space leaves no entry in the header map and raises nothing: the part is
  built with the headers of the other lines.  A line that contains colon space is cut
  at the first occurrence into a name and a value, stored in the dictionary.
\<close>

theorem header_line_without_colon_ignored:
  "(c = first @ CRLFCRLF @ rest \<and> \<not> contains CRLFCRLF (butlast (first @ CRLFCRLF)) \<and>
    py_split CRLF first = ls1 @ l # ls2 \<and> \<not> contains '': '' l \<longrightarrow>
      BodyPart_init c enc =
        Inr \<lparr>headers = CaseInsensitiveDict (header_lines (ls1 @ ls2) []), content = rest,
             encoding = enc\<rparr>) \<and>
   (\<not> contains '': '' (butlast (k @ '': '')) \<longrightarrow>
      header_lines (ks1 @ (k @ '': '' @ v) # ks2) hs =
        header_lines ks2 (dict_set (header_lines ks1 hs) k v))"
proof (intro conjI impI)
  assume a: "c = first @ CRLFCRLF @ rest \<and> \<not> contains CRLFCRLF (butlast (first @ CRLFCRLF)) \<and>
    py_split CRLF first = ls1 @ l # ls2 \<and> \<not> contains '': '' l"
  then have "find_sub CRLFCRLF c = Some (length first)"
    by (simp add: find_sub_first_occurrence contains_iff_sublist)
  moreover from a have "split_on_find c CRLFCRLF = (first, rest)"
    by (simp add: split_on_find_first_occurrence contains_iff_sublist)
  moreover from a have "header_block first = header_lines (ls1 @ ls2) []"
    by (simp add: header_block_ignored)
  ultimately show "BodyPart_init c enc =
        Inr \<lparr>headers = CaseInsensitiveDict (header_lines (ls1 @ ls2) []), content = rest,
             encoding = enc\<rparr>"
    by (simp add: BodyPart_init_def contains_def)
next
  assume a: "\<not> contains '': '' (butlast (k @ '': ''))"
  then have "split_on_find (k @ '': '' @ v) '': '' = (k, v)"
    using split_on_find_first_occurrence [of "'': ''" k v]
    by (simp add: contains_iff_sublist)
  moreover have "contains '': '' (k @ '': '' @ v)"
    unfolding contains_iff_sublist by (rule sublist_appendI)
  ultimately show "header_lines (ks1 @ (k @ '': '' @ v) # ks2) hs =
        header_lines ks2 (dict_set (header_lines ks1 hs) k v)"
    by (simp add: header_lines_append)
qed

theorem header_line_without_colon_ignored_witness:
  "''A: b'' @ CRLF @ ''junk'' @ CRLFCRLF @ ''xy'' = (''A: b'' @ CRLF @ ''junk'') @ CRLFCRLF @ ''xy'' \<and>
   \<not> contains CRLFCRLF (butlast ((''A: b'' @ CRLF @ ''junk'') @ CRLFCRLF)) \<and>
   py_split CRLF (''A: b'' @ CRLF @ ''junk'') = [''A: b''] @ ''junk'' # [] \<and>
   \<not> contains '': '' ''junk'' \<and>
   BodyPart_init (''A: b'' @ CRLF @ ''junk'' @ CRLFCRLF @ ''xy'') ''utf-8'' =
     Inr \<lparr>headers = [(''a'', ''A'', ''b'')], content = ''xy'', encoding = ''utf-8''\<rparr> \<and>
   \<not> contains '': '' (butlast (''A'' @ '': '')) \<and>
   header_lines ([] @ (''A'' @ '': '' @ ''b: c'') # []) [] = [(''A'', ''b: c'')]"
proof -
  have h1: "''A: b'' @ CRLF @ ''junk'' @ CRLFCRLF @ ''xy'' = (''A: b'' @ CRLF @ ''junk'') @ CRLFCRLF @ ''xy''"
    by simp
  have h2: "\<not> contains CRLFCRLF (butlast ((''A: b'' @ CRLF @ ''junk'') @ CRLFCRLF))"
    by code_simp
  have h3: "py_split CRLF (''A: b'' @ CRLF @ ''junk'') = [''A: b''] @ ''junk'' # []"
    by code_simp
  have h4: "\<not> contains '': '' ''junk''" by code_simp
  have h5: "\<not> contains '': '' (butlast (''A'' @ '': ''))" by code_simp
  have e1: "CaseInsensitiveDict (header_lines ([''A: b''] @ []) []) = [(''a'', ''A'', ''b'')]"
    by code_simp
  have e2: "header_lines [] (dict_set (header_lines [] []) ''A'' ''b: c'') = [(''A'', ''b: c'')]"
    by code_simp
  from header_line_without_colon_ignored
    [of "''A: b'' @ CRLF @ ''junk'' @ CRLFCRLF @ ''xy''" "''A: b'' @ CRLF @ ''junk''" "''xy''"
        "[''A: b'']" "''junk''" "[]" "''utf-8''" "''A''" "[]" "''b: c''" "[]" "[]"]
    h1 h2 h3 h4 h5 e1 e2
  show ?thesis by (simp only:) simp
qed

section \<open>Fragments of the payload\<close>

lemma build_parts_append:
  "build_parts b enc (xs @ ys) =
     (case build_parts b enc xs of
        Inl e \<Rightarrow> Inl e
      | Inr ps \<Rightarrow> (case build_parts b enc ys of Inl e \<Rightarrow> Inl e | Inr qs \<Rightarrow> Inr (ps @ qs)))"
  by (induction xs) (auto split: sum.splits)

lemma build_parts_length:
  "build_parts b enc xs = Inr ps \<Longrightarrow>
   length ps = length (filter (\<lambda>x. x \<noteq> [] \<and> x \<noteq> CRLF) xs)"
  by (induction xs arbitrary: ps) (auto split: if_splits sum.splits)

lemma build_parts_skip:
  "x = [] \<or> x = CRLF \<Longrightarrow> build_parts b enc (xs @ x # ys) = build_parts b enc (xs @ ys)"
  by (auto simp: build_parts_append split: sum.splits)

text \<open>
  C9.  A fragment of the split that is exactly CRLF is skipped like an empty one: the
  result of the parse, parts or exception, is that of the other fragments, and the
  number of parts is the number of fragments that are neither empty nor CRLF.  Handed
  to \<^verbatim>\<open>BodyPart\<close>, the lone CRLF would have been a part with no headers and no
  content.
\<close>

theorem lone_crlf_fragment_dropped:
  "py_split (separator b) cont = xs @ CRLF # ys \<Longrightarrow>
   parse_body b enc cont = build_parts b enc (xs @ ys) \<and>
   (\<forall>ps. parse_body b enc cont = Inr ps \<longrightarrow>
      length ps = length (filter (\<lambda>x. x \<noteq> [] \<and> x \<noteq> CRLF) (xs @ ys))) \<and>
   BodyPart_init CRLF enc = Inr \<lparr>headers = [], content = [], encoding = enc\<rparr>"
proof -
  assume a: "py_split (separator b) cont = xs @ CRLF # ys"
  then have eq: "parse_body b enc cont = build_parts b enc (xs @ ys)"
    by (simp add: parse_body_def build_parts_skip)
  have "\<not> contains CRLFCRLF CRLF"
    by (auto simp: contains_iff_sublist CRLFCRLF_def CRLF_def dest: sublist_length_le)
  moreover have "drop 2 CRLF = []" by (simp add: CRLF_def)
  ultimately have "BodyPart_init CRLF enc = Inr \<lparr>headers = [], content = [], encoding = enc\<rparr>"
    by (simp add: BodyPart_init_def take2_prefix slice_from_2 CaseInsensitiveDict_Nil)
  with eq show ?thesis by (auto dest: build_parts_length)
qed

theorem lone_crlf_fragment_dropped_witness:
  "py_split (separator ''B'') (''--B'' @ CRLF @ CRLF @ ''--B'' @ CRLF @ CRLF @ ''abc'' @ CRLF) =
     [Nil] @ CRLF # [CRLF @ ''abc'' @ CRLF] \<and>
   parse_body ''B'' ''utf-8'' (''--B'' @ CRLF @ CRLF @ ''--B'' @ CRLF @ CRLF @ ''abc'' @ CRLF) =
     Inr [\<lparr>headers = [], content = ''abc'', encoding = ''utf-8''\<rparr>]"
proof -
  have h: "py_split (separator ''B'')
      (''--B'' @ CRLF @ CRLF @ ''--B'' @ CRLF @ CRLF @ ''abc'' @ CRLF) =
     [Nil] @ CRLF # [CRLF @ ''abc'' @ CRLF]"
    by code_simp
  have e: "build_parts ''B'' ''utf-8'' ([Nil] @ [CRLF @ ''abc'' @ CRLF]) =
      Inr [\<lparr>headers = [], content = ''abc'', encoding = ''utf-8''\<rparr>]"
    by code_simp
  from lone_crlf_fragment_dropped [OF h, of "''utf-8''"] h e
  show ?thesis by (simp only:) 
qed

text \<open>
  C6.  A part whose content contains the separator of the parts is cut there: the
  payload that frames the one content \<^verbatim>\<open>a1--B\r\n\r\nb\<close> decodes without an
  exception into two parts, none of them with that content.
\<close>

theorem boundary_collision_missplits:
  "\<exists>original payload d.
     contains (separator ''B'') original \<and>
     payload = separator ''B'' @ CRLF @ original @ CRLF @ ''--B--'' @ CRLF \<and>
     MultipartDecoder_init latin1_only payload ''multipart/form-data; boundary=B'' ''latin-1''
       = Inr d \<and>
     1 < length (parts d) \<and> original \<notin> set (map content (parts d))"
proof -
  let ?original = "''a1--B'' @ CRLF @ CRLF @ ''b''"
  let ?payload = "separator ''B'' @ CRLF @ ?original @ CRLF @ ''--B--'' @ CRLF"
  let ?d = "\<lparr>m_content = ?payload, content_type = ''multipart/form-data; boundary=B'',
      m_encoding = ''latin-1'', boundary = ''B'',
      parts = [\<lparr>headers = [], content = [], encoding = ''latin-1''\<rparr>,
               \<lparr>headers = [], content = ''b'', encoding = ''latin-1''\<rparr>]\<rparr>"
  have "contains (separator ''B'') ?original" by code_simp
  moreover have "MultipartDecoder_init latin1_only ?payload
      ''multipart/form-data; boundary=B'' ''latin-1'' = Inr ?d"
    by code_simp
  moreover have "1 < length (parts ?d)" by simp
  moreover have "?original \<notin> set (map content (parts ?d))" by simp
  ultimately show ?thesis by blast
qed

section \<open>The last two bytes of a fragment\<close>

lemma slice_to_minus2: "slice_to (g @ [c1, c2]) (- 2) = g"
  by (simp add: slice_to_def)

lemma build_parts_retained:
  "x \<noteq> [] \<Longrightarrow> x \<noteq> CRLF \<Longrightarrow>
   build_parts b enc (x # xs) =
     (case BodyPart_init (fix_last_part (slice_to x (- 2)) (end_marker b)) enc of
        Inl e \<Rightarrow> Inl e
      | Inr p \<Rightarrow> (case build_parts b enc xs of Inl e \<Rightarrow> Inl e | Inr ps \<Rightarrow> Inr (p # ps)))"
  by simp

text \<open>
  C7, as the code has it.  The last two bytes of a retained fragment are removed
  whatever they are, and nothing is rejected for them: a payload with a fragment of
  three bytes or more decodes as if that fragment ended in CRLF.
\<close>

theorem last_two_bytes_dropped:
  assumes "g \<noteq> []" and "py_split (separator b) cont = xs @ (g @ [c1, c2]) # ys"
  shows "parse_body b enc cont = build_parts b enc (xs @ (g @ CRLF) # ys)"
proof -
  from assms(1) have r1: "g @ [c1, c2] \<noteq> []" "g @ [c1, c2] \<noteq> CRLF"
    by (simp_all add: CRLF_def)
  from assms(1) have r2: "g @ CRLF \<noteq> []" "g @ CRLF \<noteq> CRLF"
    by (simp_all add: CRLF_def)
  have "slice_to (g @ CRLF) (- 2) = g"
    unfolding CRLF_def by (rule slice_to_minus2)
  then have eq: "build_parts b enc ((g @ [c1, c2]) # ys) = build_parts b enc ((g @ CRLF) # ys)"
    by (simp only: build_parts_retained [OF r1] build_parts_retained [OF r2] slice_to_minus2)
  show ?thesis
    by (simp only: parse_body_def assms(2) build_parts_append eq)
qed

theorem last_two_bytes_dropped_witness:
  "CRLF @ ''abc'' \<noteq> [] \<and>
   py_split (separator ''B'') (''--B'' @ CRLF @ CRLF @ ''abcXY'') =
     [Nil] @ ((CRLF @ ''abc'') @ [CHR ''X'', CHR ''Y'']) # [] \<and>
   parse_body ''B'' ''utf-8'' (''--B'' @ CRLF @ CRLF @ ''abcXY'') =
     build_parts ''B'' ''utf-8'' ([Nil] @ ((CRLF @ ''abc'') @ CRLF) # [])"
proof -
  have h1: "CRLF @ ''abc'' \<noteq> []" by simp
  have h2: "py_split (separator ''B'') (''--B'' @ CRLF @ CRLF @ ''abcXY'') =
     [Nil] @ ((CRLF @ ''abc'') @ [CHR ''X'', CHR ''Y'']) # []"
    by code_simp
  from last_two_bytes_dropped [OF h1 h2, of "''utf-8''"] h1 h2
  show ?thesis by blast
qed

text \<open>
  The claim C7 as the specification words it, that a retained fragment whose last two
  bytes are not CRLF is rejected, fails: the fragment \<^verbatim>\<open>\r\nabcXY\<close> is decoded, and
  its content is \<^verbatim>\<open>abc\<close>.
\<close>

theorem non_crlf_fragment_truncated:
  "py_split (separator ''B'') (''--B'' @ CRLF @ CRLF @ ''abcXY'') = [Nil, CRLF @ ''abcXY''] \<and>
   MultipartDecoder_init latin1_only (''--B'' @ CRLF @ CRLF @ ''abcXY'')
     ''multipart/form-data; boundary=B'' ''latin-1'' =
     Inr \<lparr>m_content = ''--B'' @ CRLF @ CRLF @ ''abcXY'',
          content_type = ''multipart/form-data; boundary=B'', m_encoding = ''latin-1'',
          boundary = ''B'',
          parts = [\<lparr>headers = [], content = ''abc'', encoding = ''latin-1''\<rparr>]\<rparr>"
  by code_simp

section \<open>The boundary attribute\<close>

lemma boundary_loop_append:
  "boundary_loop ew enc (xs @ ys) b =
     (case boundary_loop ew enc xs b of Inl e \<Rightarrow> Inl e | Inr b' \<Rightarrow> boundary_loop ew enc ys b')"
  by (induction xs arbitrary: b) (auto split: prod.splits sum.splits)

lemma boundary_loop_no_boundary:
  "\<forall>item \<in> set xs. str_lower (fst (split_on_find item ''='')) \<noteq> ''boundary'' \<Longrightarrow>
   boundary_loop ew enc xs b = Inr b"
  by (induction xs arbitrary: b) (auto split: prod.splits)

lemma boundary_loop_no_error:
  "\<forall>item \<in> set xs. str_lower (fst (split_on_find item ''='')) = ''boundary'' \<longrightarrow>
      (\<exists>bs. ew (py_strip_chars (snd (split_on_find item ''='')) [CHR 0x22]) enc = Inr bs) \<Longrightarrow>
   \<exists>b'. boundary_loop ew enc xs b = Inr b'"
  by (induction xs arbitrary: b) (auto split: prod.splits sum.splits)

lemma split_on_find_attribute:
  "CHR ''='' \<notin> set k \<Longrightarrow> split_on_find (k @ ''='' @ v) ''='' = (k, v)"
proof -
  assume "CHR ''='' \<notin> set k"
  then have "\<not> sublist ''='' (butlast (k @ ''=''))"
    by (auto simp: sublist_def)
  from split_on_find_first_occurrence [OF this] show ?thesis .
qed

text \<open>
  C5, as the code has it.  In a multipart content type, let an attribute
  \<^verbatim>\<open>key=value\<close> have a key that is \<^verbatim>\<open>boundary\<close> in lower case, let no attribute
  behind it have the name \<^verbatim>\<open>boundary\<close>, and let the encoding of the boundary
  attributes before it raise nothing.  Then \<^verbatim>\<open>_find_boundary\<close> ends as the encoding
  of the value without its surrounding double quotes does, and a decoder that is
  constructed has these bytes as its boundary.
\<close>

theorem boundary_is_last_attribute:
  assumes "hd (py_split ''/'' (hd (ct_info ct))) = ''multipart''"
    and "drop 1 (ct_info ct) = before @ (k @ ''='' @ v) # behind"
    and "CHR ''='' \<notin> set k" and "str_lower k = ''boundary''"
    and "\<forall>item \<in> set behind. str_lower (fst (split_on_find item ''='')) \<noteq> ''boundary''"
    and "\<forall>item \<in> set before. str_lower (fst (split_on_find item ''='')) = ''boundary'' \<longrightarrow>
           (\<exists>bs. encode_with (py_strip_chars (snd (split_on_find item ''='')) [CHR 0x22]) enc
                   = Inr bs)"
  shows "find_boundary encode_with ct enc =
           (case encode_with (py_strip_chars v [CHR 0x22]) enc of
              Inl e \<Rightarrow> Inl e | Inr bs \<Rightarrow> Inr (Some bs)) \<and>
         (\<forall>d. MultipartDecoder_init encode_with cont ct enc = Inr d \<longrightarrow>
              encode_with (py_strip_chars v [CHR 0x22]) enc = Inr (boundary d))"
proof -
  from boundary_loop_no_error [of before encode_with enc None] assms(6)
  obtain b0 where b0: "boundary_loop encode_with enc before None = Inr b0" by blast
  have item: "boundary_loop encode_with enc ((k @ ''='' @ v) # behind) b0 =
      (case encode_with (py_strip_chars v [CHR 0x22]) enc of
         Inl e \<Rightarrow> Inl e | Inr bs \<Rightarrow> Inr (Some bs))"
    using assms(4) boundary_loop_no_boundary [OF assms(5), of encode_with enc]
      split_on_find_attribute [OF assms(3), of v]
    by (simp split: sum.splits)
  have loop: "boundary_loop encode_with enc (drop 1 (ct_info ct)) None =
      (case encode_with (py_strip_chars v [CHR 0x22]) enc of
         Inl e \<Rightarrow> Inl e | Inr bs \<Rightarrow> Inr (Some bs))"
    unfolding assms(2) by (simp only: boundary_loop_append b0 sum.case item)
  have fb: "find_boundary encode_with ct enc =
      (case encode_with (py_strip_chars v [CHR 0x22]) enc of
         Inl e \<Rightarrow> Inl e | Inr bs \<Rightarrow> Inr (Some bs))"
    using assms(1) loop by (simp add: find_boundary_def)
  moreover have "encode_with (py_strip_chars v [CHR 0x22]) enc = Inr (boundary d)"
    if "MultipartDecoder_init encode_with cont ct enc = Inr d" for d
    using that unfolding MultipartDecoder_init_def fb
    by (auto split: sum.splits option.splits)
  ultimately show ?thesis by blast
qed

theorem boundary_is_last_attribute_witness:
  "hd (py_split ''/'' (hd (ct_info (''multipart/form-data; boundary=old; BOUNDARY='' @
      [CHR 0x22] @ ''abc'' @ [CHR 0x22] @ ''; x=y'')))) = ''multipart'' \<and>
   drop 1 (ct_info (''multipart/form-data; boundary=old; BOUNDARY='' @
      [CHR 0x22] @ ''abc'' @ [CHR 0x22] @ ''; x=y'')) =
     [''boundary=old''] @ (''BOUNDARY'' @ ''='' @ ([CHR 0x22] @ ''abc'' @ [CHR 0x22])) # [''x=y''] \<and>
   CHR ''='' \<notin> set ''BOUNDARY'' \<and> str_lower ''BOUNDARY'' = ''boundary'' \<and>
   str_lower (fst (split_on_find ''x=y'' ''='')) \<noteq> ''boundary'' \<and>
   latin1_only (py_strip_chars (snd (split_on_find ''boundary=old'' ''='')) [CHR 0x22]) ''latin-1''
     = Inr ''old'' \<and>
   find_boundary latin1_only (''multipart/form-data; boundary=old; BOUNDARY='' @
      [CHR 0x22] @ ''abc'' @ [CHR 0x22] @ ''; x=y'') ''latin-1'' = Inr (Some ''abc'') \<and>
   MultipartDecoder_init latin1_only (''--abc'' @ CRLF @ CRLF @ ''z'' @ CRLF)
     (''multipart/form-data; boundary=old; BOUNDARY='' @
      [CHR 0x22] @ ''abc'' @ [CHR 0x22] @ ''; x=y'') ''latin-1'' =
     Inr \<lparr>m_content = ''--abc'' @ CRLF @ CRLF @ ''z'' @ CRLF,
          content_type = ''multipart/form-data; boundary=old; BOUNDARY='' @
            [CHR 0x22] @ ''abc'' @ [CHR 0x22] @ ''; x=y'',
          m_encoding = ''latin-1'', boundary = ''abc'',
          parts = [\<lparr>headers = [], content = ''z'', encoding = ''latin-1''\<rparr>]\<rparr>"
proof -
  let ?ct = "''multipart/form-data; boundary=old; BOUNDARY='' @
      [CHR 0x22] @ ''abc'' @ [CHR 0x22] @ ''; x=y''"
  let ?v = "[CHR 0x22] @ ''abc'' @ [CHR 0x22]"
  have h1: "hd (py_split ''/'' (hd (ct_info ?ct))) = ''multipart''" by code_simp
  have h2: "drop 1 (ct_info ?ct) = [''boundary=old''] @ (''BOUNDARY'' @ ''='' @ ?v) # [''x=y'']"
    by code_simp
  have h3: "CHR ''='' \<notin> set ''BOUNDARY''" by simp
  have h4: "str_lower ''BOUNDARY'' = ''boundary''" by code_simp
  have "str_lower (fst (split_on_find ''x=y'' ''='')) = ''x''" by code_simp
  then have g5: "str_lower (fst (split_on_find ''x=y'' ''='')) \<noteq> ''boundary''" by simp
  then have h5: "\<forall>item \<in> set [''x=y'']. str_lower (fst (split_on_find item ''='')) \<noteq> ''boundary''"
    by simp
  have g6: "latin1_only (py_strip_chars (snd (split_on_find ''boundary=old'' ''='')) [CHR 0x22])
      ''latin-1'' = Inr ''old''"
    by code_simp
  then have h6: "\<forall>item \<in> set [''boundary=old''].
      str_lower (fst (split_on_find item ''='')) = ''boundary'' \<longrightarrow>
      (\<exists>bs. latin1_only (py_strip_chars (snd (split_on_find item ''='')) [CHR 0x22]) ''latin-1''
              = Inr bs)"
    by simp
  have e1: "latin1_only (py_strip_chars ?v [CHR 0x22]) ''latin-1'' = Inr ''abc''" by code_simp
  have e2: "MultipartDecoder_init latin1_only (''--abc'' @ CRLF @ CRLF @ ''z'' @ CRLF) ?ct ''latin-1'' =
     Inr \<lparr>m_content = ''--abc'' @ CRLF @ CRLF @ ''z'' @ CRLF, content_type = ?ct,
          m_encoding = ''latin-1'', boundary = ''abc'',
          parts = [\<lparr>headers = [], content = ''z'', encoding = ''latin-1''\<rparr>]\<rparr>"
    by code_simp
  from boundary_is_last_attribute
    [where ct = ?ct and before = "[''boundary=old'']" and k = "''BOUNDARY''" and v = ?v
       and behind = "[''x=y'']" and encode_with = latin1_only and enc = "''latin-1''"
       and cont = "''--abc'' @ CRLF @ CRLF @ ''z'' @ CRLF", OF h1 h2 h3 h4 h5 h6]
  have "find_boundary latin1_only ?ct ''latin-1'' = Inr (Some ''abc'')"
    by (simp only: e1 sum.case)
  with h1 h2 h3 h4 g5 g6 e2 show ?thesis by blast
qed

text \<open>
  The claim C5 as the specification words it, for every attribute with the key
  \<^verbatim>\<open>boundary\<close>, fails when there are two: with \<^verbatim>\<open>boundary=a; boundary=b\<close> the
  boundary of the decoder is \<^verbatim>\<open>b\<close>, not the value \<^verbatim>\<open>a\<close> of the first attribute.
\<close>

theorem first_boundary_attribute_overwritten:
  "ct_info ''multipart/mixed; boundary=a; boundary=b'' =
     [''multipart/mixed'', ''boundary=a'', ''boundary=b''] \<and>
   latin1_only (py_strip_chars ''a'' [CHR 0x22]) ''latin-1'' = Inr ''a'' \<and>
   MultipartDecoder_init latin1_only [] ''multipart/mixed; boundary=a; boundary=b'' ''latin-1'' =
     Inr \<lparr>m_content = [], content_type = ''multipart/mixed; boundary=a; boundary=b'',
          m_encoding = ''latin-1'', boundary = ''b'', parts = []\<rparr>"
  by code_simp

section \<open>A payload without its terminal marker\<close>

lemma py_split_None: "find_sub sep xs = None \<Longrightarrow> py_split sep xs = [xs]"
  by (subst py_split.simps) simp

lemma py_split_Some:
  "sep \<noteq> [] \<Longrightarrow> find_sub sep xs = Some i \<Longrightarrow>
   py_split sep xs = take i xs # py_split sep (drop (i + length sep) xs)"
  by (subst py_split.simps) simp

lemma py_split_append_no_new:
  assumes "sep \<noteq> []"
    and "\<And>ps ss. xs @ ys = ps @ sep @ ss \<Longrightarrow> length (ps @ sep) \<le> length xs"
  shows "py_split sep (xs @ ys) = butlast (py_split sep xs) @ [last (py_split sep xs) @ ys]"
  using assms
proof (induction sep xs rule: py_split.induct)
  case (1 sep xs)
  show ?case
  proof (cases "find_sub sep xs")
    case None
    have "\<not> sublist sep (xs @ ys)"
    proof
      assume "sublist sep (xs @ ys)"
      then obtain ps ss where eq: "xs @ ys = ps @ sep @ ss" by (auto simp: sublist_def)
      from "1.prems"(2) [OF eq] have le: "length (ps @ sep) \<le> length xs" .
      from eq have "take (length (ps @ sep)) (xs @ ys) = ps @ sep" by simp
      with le have "take (length (ps @ sep)) xs = ps @ sep" by simp
      then have "xs = ps @ sep @ drop (length (ps @ sep)) xs"
        by (metis append_take_drop_id append.assoc)
      then have "sublist sep xs" by (metis sublist_appendI)
      with None show False by (simp add: find_sub_None_iff)
    qed
    then have "find_sub sep (xs @ ys) = None" by (simp add: find_sub_None_iff)
    with None show ?thesis by (simp add: py_split_None)
  next
    case (Some i)
    let ?xs' = "drop (i + length sep) xs"
    from find_sub_bound [OF Some] have bound: "i + length sep \<le> length xs" .
    from find_sub_Some_decomp [OF Some] have dec: "xs = take i xs @ sep @ ?xs'" .
    have "find_sub sep (xs @ ys) = Some (length (take i xs))"
    proof (rule find_sub_eqI)
      from dec show "xs @ ys = take i xs @ sep @ (?xs' @ ys)"
        by (metis append.assoc)
    next
      fix ps' ss'
      assume eq: "xs @ ys = ps' @ sep @ ss'"
      from "1.prems"(2) [OF eq] have le: "length (ps' @ sep) \<le> length xs" .
      from eq have "take (length (ps' @ sep)) (xs @ ys) = ps' @ sep" by simp
      with le have "take (length (ps' @ sep)) xs = ps' @ sep" by simp
      then have "xs = ps' @ sep @ drop (length (ps' @ sep)) xs"
        by (metis append_take_drop_id append.assoc)
      from find_sub_least [OF Some this] bound
      show "length (take i xs) \<le> length ps'" by simp
    qed
    with bound have found: "find_sub sep (xs @ ys) = Some i" by simp
    have step: "py_split sep (xs @ ys) = take i xs # py_split sep (?xs' @ ys)"
      using bound by (simp add: py_split_Some [OF "1.prems"(1) found])
    have "py_split sep (?xs' @ ys) =
        butlast (py_split sep ?xs') @ [last (py_split sep ?xs') @ ys]"
    proof (rule "1.IH" [OF "1.prems"(1) Some "1.prems"(1)])
      fix ps ss
      assume eq: "?xs' @ ys = ps @ sep @ ss"
      have "xs @ ys = take (i + length sep) xs @ ?xs' @ ys" by simp
      also have "\<dots> = (take (i + length sep) xs @ ps) @ sep @ ss" using eq by simp
      finally have "length ((take (i + length sep) xs @ ps) @ sep) \<le> length xs"
        by (rule "1.prems"(2))
      with bound show "length (ps @ sep) \<le> length ?xs'" by simp
    qed
    with step show ?thesis
      by (simp add: py_split_Some [OF "1.prems"(1) Some] py_split_not_Nil)
  qed
qed

lemma last_py_split:
  "sep \<noteq> [] \<Longrightarrow>
   last (py_split sep xs) = xs \<or> (\<exists>u. xs = u @ sep @ last (py_split sep xs))"
proof (induction sep xs rule: py_split.induct)
  case (1 sep xs)
  show ?case
  proof (cases "find_sub sep xs")
    case None
    then show ?thesis by (simp add: py_split_None)
  next
    case (Some i)
    let ?xs' = "drop (i + length sep) xs"
    from find_sub_Some_decomp [OF Some] have dec: "xs = take i xs @ sep @ ?xs'" .
    have l: "last (py_split sep xs) = last (py_split sep ?xs')"
      by (simp add: py_split_Some [OF "1.prems" Some] py_split_not_Nil)
    from "1.IH" [OF "1.prems" Some "1.prems"]
    show ?thesis
    proof
      assume "last (py_split sep ?xs') = ?xs'"
      with l have "last (py_split sep xs) = ?xs'" by simp
      with dec have "xs = take i xs @ sep @ last (py_split sep xs)" by simp
      then show ?thesis by blast
    next
      assume "\<exists>u. ?xs' = u @ sep @ last (py_split sep ?xs')"
      then obtain u where "?xs' = u @ sep @ last (py_split sep ?xs')" ..
      with l have "?xs' = u @ sep @ last (py_split sep xs)" by simp
      then have "take i xs @ sep @ ?xs' = (take i xs @ sep @ u) @ sep @ last (py_split sep xs)"
        by simp
      with dec have "xs = (take i xs @ sep @ u) @ sep @ last (py_split sep xs)" by simp
      then show ?thesis by blast
    qed
  qed
qed

lemma commute_dashes:
  "[d, d] @ b = b @ [d, d] \<Longrightarrow> set b \<subseteq> {d}"
proof (induction b rule: induct_list012)
  case 1
  show ?case by simp
next
  case (2 x)
  then have "hd ([d, d] @ [x]) = hd ([x] @ [d, d])" by (rule arg_cong)
  then show ?case by simp
next
  case (3 x y zs)
  let ?l = "[d, d] @ x # y # zs" and ?r = "(x # y # zs) @ [d, d]"
  from "3.prems" have "hd ?l = hd ?r" by (rule arg_cong)
  then have x: "x = d" by simp
  from "3.prems" have "hd (tl ?l) = hd (tl ?r)" by (rule arg_cong)
  then have y: "y = d" by simp
  from "3.prems" have "tl (tl ?l) = tl (tl ?r)" by (rule arg_cong)
  then have "[d, d] @ zs = zs @ [d, d]" unfolding x y by simp
  from "3.IH"(1) [OF this] x y show ?case by simp
qed

lemma last_in_butlast:
  "us @ ss = A \<Longrightarrow> us \<noteq> [] \<Longrightarrow> ss \<noteq> [] \<Longrightarrow> last us \<in> set (butlast A)"
  by (auto simp: butlast_append)

lemma append_eq_longer:
  assumes "xs @ A = P @ ss" and "length xs < length P"
  shows "\<exists>us. us \<noteq> [] \<and> xs @ us = P \<and> A = us @ ss"
proof -
  from assms(1) have "take (length xs) (xs @ A) = take (length xs) (P @ ss)" by (rule arg_cong)
  with assms(2) have "xs = take (length xs) P" by simp
  then have P: "P = xs @ drop (length xs) P" by (metis append_take_drop_id)
  with assms(1) have "xs @ A = xs @ drop (length xs) P @ ss" by (metis append.assoc)
  then have "A = drop (length xs) P @ ss" by simp
  moreover from assms(2) have "drop (length xs) P \<noteq> []" by simp
  ultimately show ?thesis using P by metis
qed

lemma separator_not_in_marker_line:
  assumes lf: "LF \<notin> set b" and dash: "\<not> set b \<subseteq> {CHR ''-''}"
    and eq: "xs @ ''--'' @ b @ ''--'' @ CRLF = ps @ separator b @ ss"
  shows "length (ps @ separator b) \<le> length xs"
proof (rule ccontr)
  let ?A = "''--'' @ b @ ''--'' @ CRLF"
  let ?S = "separator b"
  assume "\<not> length (ps @ ?S) \<le> length xs"
  then have long: "length xs < length (ps @ ?S)" by simp
  from eq have "xs @ ?A = (ps @ ?S) @ ss" by simp
  from append_eq_longer [OF this long]
  obtain us where ne: "us \<noteq> []" and us: "xs @ us = ps @ ?S" "?A = us @ ss"
    by blast
  have "last (xs @ us) = last (ps @ ?S)" using us(1) by simp
  with ne have lastus: "last us = LF" by (simp add: separator_def CRLF_def)
  have "LF \<notin> set (butlast ?A)"
    using lf by (simp add: CRLF_def butlast_append LF_def CR_def)
  with last_in_butlast [OF us(2) [symmetric] ne] lastus have "ss = []" by auto
  with us have all: "xs @ ?A = ps @ ?S" by simp
  then have "length (xs @ ?A) = length (ps @ ?S)" by (rule arg_cong)
  then have len: "length ps = length xs + 2" by (simp add: separator_def CRLF_def)
  from all have "drop (length xs + 2) (xs @ ?A) = drop (length xs + 2) (ps @ ?S)"
    by (rule arg_cong)
  with len have "b @ ''--'' @ CRLF = ?S" by simp
  then have "''--'' @ b = b @ ''--''" by (simp add: separator_def)
  from commute_dashes [OF this] dash show False by simp
qed

lemma last_fragment_shape:
  assumes "F = last (py_split (separator b) (pre @ CRLF))"
  shows "F = [] \<or> (\<exists>F0. F = F0 @ CRLF)"
proof -
  have ne: "separator b \<noteq> []" by (simp add: separator_def)
  from last_py_split [OF ne, of "pre @ CRLF"] assms
  consider "F = pre @ CRLF" | u where "pre @ CRLF = u @ separator b @ F" by auto
  then show ?thesis
  proof cases
    case 1
    then show ?thesis by blast
  next
    case 2
    show ?thesis
    proof (cases F rule: rev_cases)
      case Nil
      then show ?thesis by simp
    next
      case (snoc F1 l)
      with 2 have "pre @ [CR, LF] = (u @ separator b @ F1) @ [l]" by (simp add: CRLF_def)
      then have "(pre @ [CR]) @ [LF] = (u @ separator b @ F1) @ [l]" by simp
      then have l: "l = LF" and eq1: "pre @ [CR] = u @ separator b @ F1"
        by (simp_all only: append1_eq_conv)
      show ?thesis
      proof (cases F1 rule: rev_cases)
        case Nil
        with eq1 have "pre @ [CR] = (u @ ''--'' @ b @ [CR]) @ [LF]"
          by (simp add: separator_def CRLF_def)
        then have "CR = LF" by (simp only: append1_eq_conv)
        then show ?thesis by (simp add: CR_def LF_def)
      next
        case (snoc F0 c)
        with eq1 have "pre @ [CR] = (u @ separator b @ F0) @ [c]" by simp
        then have "c = CR" by (simp only: append1_eq_conv)
        with l \<open>F = F1 @ [l]\<close> \<open>F1 = F0 @ [c]\<close> have "F = F0 @ CRLF" by (simp add: CRLF_def)
        then show ?thesis by blast
      qed
    qed
  qed
qed

lemma fix_last_part_alt:
  "fix_last_part part m = (case find_sub m part of None \<Rightarrow> part | Some i \<Rightarrow> take i part)"
  by (simp add: fix_last_part_def contains_def py_find_def slice_to_def split: option.splits)

lemma end_marker_no_overlap:
  assumes lf: "LF \<notin> set b"
    and eq: "F0 @ end_marker b = u @ end_marker b @ w"
    and less: "length u < length F0"
  shows "length (u @ end_marker b) \<le> length F0"
proof (rule ccontr)
  let ?M = "end_marker b"
  let ?R = "''--'' @ b @ ''--''"
  have M: "?M = CR # LF # ?R" by (simp add: end_marker_def CRLF_def)
  have lfR: "LF \<notin> set ?R" using lf by (simp add: LF_def)
  assume "\<not> length (u @ ?M) \<le> length F0"
  then have long: "length F0 < length (u @ ?M)" by simp
  from eq have "F0 @ ?M = (u @ ?M) @ w" by simp
  from append_eq_longer [OF this long]
  obtain us where us: "us \<noteq> []" "F0 @ us = u @ ?M" "?M = us @ w" by blast
  from append_eq_longer [OF us(2) [symmetric] less]
  obtain vs where vs: "vs \<noteq> []" "u @ vs = F0" "?M = vs @ us" by blast
  have vsM: "CR # LF # ?R = vs @ us" using vs(3) unfolding M .
  have usM: "CR # LF # ?R = us @ w" using us(3) unfolding M .
  obtain v0 vs' where vs': "vs = v0 # vs'" using vs(1) by (cases vs) simp_all
  have tail: "LF # ?R = vs' @ us" using vsM unfolding vs' by simp
  obtain c1 us1 where us_c: "us = c1 # us1" using us(1) by (cases us) simp_all
  have c1: "c1 = CR" using usM unfolding us_c by simp
  show False
  proof (cases us1)
    case Nil
    have "last (CR # LF # ?R) = last (vs @ us)" using vsM by (rule arg_cong)
    then have "CHR ''-'' = CR" unfolding us_c Nil c1 by simp
    then show False by (simp add: CR_def)
  next
    case (Cons c2 us2)
    have c2: "c2 = LF" using usM unfolding us_c Cons by simp
    show False
    proof (cases vs')
      case Nil
      have "LF = CR" using tail unfolding us_c c1 Nil by simp
      then show False by (simp add: CR_def LF_def)
    next
      case (Cons v vs2)
      have R_eq: "?R = vs2 @ CR # LF # us2"
        using tail unfolding Cons us_c c1 \<open>us1 = c2 # us2\<close> c2 by simp
      have "LF \<in> set (vs2 @ CR # LF # us2)" by simp
      then have "LF \<in> set ?R" unfolding R_eq [symmetric] .
      with lfR show False by simp
    qed
  qed
qed

lemma fix_last_part_marker_appended:
  assumes lf: "LF \<notin> set b"
  shows "fix_last_part (F0 @ end_marker b) (end_marker b) = fix_last_part F0 (end_marker b)"
proof -
  let ?M = "end_marker b"
  have Mne: "?M \<noteq> []" by (simp add: end_marker_def)
  have "sublist ?M (F0 @ ?M)" by (metis sublist_appendI append_Nil2)
  then obtain p where p: "find_sub ?M (F0 @ ?M) = Some p"
    using find_sub_None_iff [of ?M "F0 @ ?M"] by (cases "find_sub ?M (F0 @ ?M)") auto
  from find_sub_least [OF p, of F0 "[]"] have ple: "p \<le> length F0" by simp
  from find_sub_Some_decomp [OF p]
  have dec: "F0 @ ?M = take p (F0 @ ?M) @ ?M @ drop (p + length ?M) (F0 @ ?M)" .
  have least: "p \<le> length ps'" if "F0 = ps' @ ?M @ ss'" for ps' ss'
  proof -
    from that have "F0 @ ?M = ps' @ ?M @ (ss' @ ?M)" by simp
    from find_sub_least [OF p this] show ?thesis .
  qed
  show ?thesis
  proof (cases "p = length F0")
    case True
    have "find_sub ?M F0 = None"
    proof (rule ccontr)
      assume "find_sub ?M F0 \<noteq> None"
      then obtain q where q: "find_sub ?M F0 = Some q" by auto
      from least [OF find_sub_Some_decomp [OF q]] have "p \<le> length (take q F0)" .
      moreover from find_sub_bound [OF q] Mne have "q < length F0" by (cases ?M) auto
      ultimately show False using True by simp
    qed
    with p True show ?thesis by (simp add: fix_last_part_alt)
  next
    case False
    with ple have less: "p < length F0" by simp
    then have lu: "length (take p (F0 @ ?M)) < length F0" by simp
    from end_marker_no_overlap [OF lf dec lu] less
    have inside: "p + length ?M \<le> length F0" by simp
    from dec have "take (length F0) (F0 @ ?M) =
        take (length F0) (take p (F0 @ ?M) @ ?M @ drop (p + length ?M) (F0 @ ?M))"
      by (rule arg_cong)
    with inside less have decF: "F0 = take p F0 @ ?M @ drop (p + length ?M) F0"
      by (simp add: min_def)
    have "find_sub ?M F0 = Some (length (take p F0))"
    proof (rule find_sub_eqI [OF decF])
      fix ps' ss'
      assume "F0 = ps' @ ?M @ ss'"
      from least [OF this] show "length (take p F0) \<le> length ps'" by simp
    qed
    with less have "find_sub ?M F0 = Some p" by simp
    with p less show ?thesis by (simp add: fix_last_part_alt)
  qed
qed

lemma BodyPart_init_Nil: "BodyPart_init [] enc = Inl ImproperBodyPartContentException"
  by (rule BodyPart_init_improper) (simp_all add: contains_iff_sublist CRLFCRLF_def CRLF_def)

lemma BodyPart_init_bare_marker:
  assumes "LF \<notin> set b"
  shows "BodyPart_init (''--'' @ b @ ''--'') enc = Inl ImproperBodyPartContentException"
proof (rule BodyPart_init_improper)
  show "\<not> contains CRLFCRLF (''--'' @ b @ ''--'')"
  proof
    assume "contains CRLFCRLF (''--'' @ b @ ''--'')"
    then have "set CRLFCRLF \<subseteq> set (''--'' @ b @ ''--'')"
      unfolding contains_iff_sublist by (rule set_mono_sublist)
    then have "LF \<in> set (''--'' @ b @ ''--'')" by (simp add: CRLFCRLF_def)
    with assms show False by (simp add: LF_def)
  qed
  show "\<not> prefix CRLF (''--'' @ b @ ''--'')" by (simp add: CRLF_def CR_def)
qed

lemma fix_last_part_short:
  "length part < length m \<Longrightarrow> fix_last_part part m = part"
proof -
  assume "length part < length m"
  then have "\<not> sublist m part" by (auto dest: sublist_length_le)
  then have "find_sub m part = None" by (simp add: find_sub_None_iff)
  then show ?thesis by (simp add: fix_last_part_alt)
qed

lemma parse_body_without_marker:
  assumes lf: "LF \<notin> set b" and dash: "\<not> set b \<subseteq> {CHR ''-''}"
    and ok: "parse_body b enc (pre @ CRLF @ ''--'' @ b @ ''--'' @ CRLF) = Inr ps"
  shows "parse_body b enc (pre @ CRLF) = Inr ps"
proof -
  let ?S = "separator b" and ?M = "end_marker b"
  let ?A = "''--'' @ b @ ''--'' @ CRLF" and ?P = "pre @ CRLF"
  define fs where "fs = py_split ?S ?P"
  define F where "F = last fs"
  have Sne: "?S \<noteq> []" by (simp add: separator_def)
  have fs_ne: "fs \<noteq> []" by (simp add: fs_def py_split_not_Nil)
  then have fs_eq: "fs = butlast fs @ [F]" by (simp add: F_def)
  have "py_split ?S (?P @ ?A) = butlast (py_split ?S ?P) @ [last (py_split ?S ?P) @ ?A]"
    by (rule py_split_append_no_new [OF Sne]) (rule separator_not_in_marker_line [OF lf dash])
  then have split: "py_split ?S (?P @ ?A) = butlast fs @ [F @ ?A]"
    by (simp only: fs_def F_def)
  from ok have "build_parts b enc (py_split ?S (?P @ ?A)) = Inr ps"
    by (simp add: parse_body_def)
  then have "build_parts b enc (butlast fs @ [F @ ?A]) = Inr ps"
    by (simp only: split)
  then obtain ps1 qs where ps1: "build_parts b enc (butlast fs) = Inr ps1"
    and qs: "build_parts b enc [F @ ?A] = Inr qs" and ps: "ps = ps1 @ qs"
    by (auto simp: build_parts_append split: sum.splits)
  have r: "F @ ?A \<noteq> []" "F @ ?A \<noteq> CRLF" by (simp_all add: CRLF_def)
  have "slice_to ((F @ ''--'' @ b @ ''--'') @ [CR, LF]) (- 2) = F @ ''--'' @ b @ ''--''"
    by (rule slice_to_minus2)
  then have slice: "slice_to (F @ ?A) (- 2) = F @ ''--'' @ b @ ''--''"
    by (simp add: CRLF_def)
  from qs obtain p where p: "BodyPart_init (fix_last_part (F @ ''--'' @ b @ ''--'') ?M) enc = Inr p"
    and qs_p: "qs = [p]"
    unfolding build_parts_retained [OF r] slice by (auto split: sum.splits)
  from last_fragment_shape [of F b pre] have "F = [] \<or> (\<exists>F0. F = F0 @ CRLF)"
    by (simp add: F_def fs_def)
  then show ?thesis
  proof
    assume "F = []"
    then have "fix_last_part (F @ ''--'' @ b @ ''--'') ?M = ''--'' @ b @ ''--''"
      by (simp add: fix_last_part_short end_marker_def CRLF_def)
    with p BodyPart_init_bare_marker [OF lf, of enc] show ?thesis by simp
  next
    assume "\<exists>F0. F = F0 @ CRLF"
    then obtain F0 where F0: "F = F0 @ CRLF" ..
    then have "F @ ''--'' @ b @ ''--'' = F0 @ ?M" by (simp add: end_marker_def)
    with p have p0: "BodyPart_init (fix_last_part F0 ?M) enc = Inr p"
      by (simp add: fix_last_part_marker_appended [OF lf])
    have F0ne: "F0 \<noteq> []"
    proof
      assume "F0 = []"
      then have "fix_last_part F0 ?M = []"
        by (simp add: fix_last_part_short end_marker_def)
      with p0 show False by (simp add: BodyPart_init_Nil)
    qed
    with F0 have rF: "F \<noteq> []" "F \<noteq> CRLF" by simp_all
    have "slice_to (F0 @ [CR, LF]) (- 2) = F0" by (rule slice_to_minus2)
    then have "slice_to F (- 2) = F0" by (simp add: F0 CRLF_def)
    with p0 have "build_parts b enc [F] = Inr [p]"
      unfolding build_parts_retained [OF rF] by simp
    with ps1 have "build_parts b enc (butlast fs @ [F]) = Inr (ps1 @ [p])"
      by (simp add: build_parts_append)
    with fs_eq ps qs_p have "build_parts b enc fs = Inr ps" by simp
    then show ?thesis by (simp add: parse_body_def fs_def)
  qed
qed

text \<open>
  C1, as the code has it.  Let the boundary contain no line feed and not consist of
  \<^verbatim>\<open>-\<close> only.  When a payload that ends with CRLF and the terminal line
  \<^verbatim>\<open>--boundary--\<close> CRLF decodes, the payload without that line, ending at the CRLF
  before it, decodes to the same parts: the decoder differs in its stored payload only.
\<close>

theorem missing_terminal_marker_tolerated:
  assumes "find_boundary encode_with ct enc = Inr (Some b)"
    and "LF \<notin> set b" and "\<not> set b \<subseteq> {CHR ''-''}"
    and "MultipartDecoder_init encode_with (pre @ CRLF @ ''--'' @ b @ ''--'' @ CRLF) ct enc = Inr d"
  shows "MultipartDecoder_init encode_with (pre @ CRLF) ct enc = Inr (d\<lparr>m_content := pre @ CRLF\<rparr>)"
proof -
  from assms(1,4) obtain ps
    where ps: "parse_body b enc (pre @ CRLF @ ''--'' @ b @ ''--'' @ CRLF) = Inr ps"
      and d: "d = \<lparr>m_content = pre @ CRLF @ ''--'' @ b @ ''--'' @ CRLF, content_type = ct,
                  m_encoding = enc, boundary = b, parts = ps\<rparr>"
    by (auto simp: MultipartDecoder_init_def split: sum.splits)
  from parse_body_without_marker [OF assms(2,3) ps]
  have "parse_body b enc (pre @ CRLF) = Inr ps" .
  with assms(1) d show ?thesis by (simp add: MultipartDecoder_init_def)
qed

theorem missing_terminal_marker_tolerated_witness:
  "find_boundary latin1_only ''multipart/form-data; boundary=B'' ''latin-1'' = Inr (Some ''B'') \<and>
   LF \<notin> set ''B'' \<and> \<not> set ''B'' \<subseteq> {CHR ''-''} \<and>
   MultipartDecoder_init latin1_only
     ((''--B'' @ CRLF @ ''A: b'' @ CRLFCRLF @ ''abc'') @ CRLF @ ''--'' @ ''B'' @ ''--'' @ CRLF)
     ''multipart/form-data; boundary=B'' ''latin-1'' =
     Inr \<lparr>m_content = ''--B'' @ CRLF @ ''A: b'' @ CRLFCRLF @ ''abc'' @ CRLF @ ''--B--'' @ CRLF,
          content_type = ''multipart/form-data; boundary=B'', m_encoding = ''latin-1'',
          boundary = ''B'',
          parts = [\<lparr>headers = [(''a'', ''A'', ''b'')], content = ''abc'',
                    encoding = ''latin-1''\<rparr>]\<rparr> \<and>
   MultipartDecoder_init latin1_only ((''--B'' @ CRLF @ ''A: b'' @ CRLFCRLF @ ''abc'') @ CRLF)
     ''multipart/form-data; boundary=B'' ''latin-1'' =
     Inr \<lparr>m_content = ''--B'' @ CRLF @ ''A: b'' @ CRLFCRLF @ ''abc'' @ CRLF,
          content_type = ''multipart/form-data; boundary=B'', m_encoding = ''latin-1'',
          boundary = ''B'',
          parts = [\<lparr>headers = [(''a'', ''A'', ''b'')], content = ''abc'',
                    encoding = ''latin-1''\<rparr>]\<rparr>"
proof -
  let ?pre = "''--B'' @ CRLF @ ''A: b'' @ CRLFCRLF @ ''abc''"
  let ?ct = "''multipart/form-data; boundary=B''"
  let ?d = "\<lparr>m_content = ''--B'' @ CRLF @ ''A: b'' @ CRLFCRLF @ ''abc'' @ CRLF @ ''--B--'' @ CRLF,
          content_type = ?ct, m_encoding = ''latin-1'', boundary = ''B'',
          parts = [\<lparr>headers = [(''a'', ''A'', ''b'')], content = ''abc'',
                    encoding = ''latin-1''\<rparr>]\<rparr>"
  have h1: "find_boundary latin1_only ?ct ''latin-1'' = Inr (Some ''B'')" by code_simp
  have h2: "LF \<notin> set ''B''" by (simp add: LF_def)
  have h3: "\<not> set ''B'' \<subseteq> {CHR ''-''}" by simp
  have h4: "MultipartDecoder_init latin1_only (?pre @ CRLF @ ''--'' @ ''B'' @ ''--'' @ CRLF) ?ct
      ''latin-1'' = Inr ?d"
    by code_simp
  from missing_terminal_marker_tolerated [OF h1 h2 h3 h4]
  have "MultipartDecoder_init latin1_only (?pre @ CRLF) ?ct ''latin-1'' =
      Inr (?d\<lparr>m_content := ?pre @ CRLF\<rparr>)" .
  then have "MultipartDecoder_init latin1_only (?pre @ CRLF) ?ct ''latin-1'' =
      Inr \<lparr>m_content = ''--B'' @ CRLF @ ''A: b'' @ CRLFCRLF @ ''abc'' @ CRLF,
          content_type = ?ct, m_encoding = ''latin-1'', boundary = ''B'',
          parts = [\<lparr>headers = [(''a'', ''A'', ''b'')], content = ''abc'',
                    encoding = ''latin-1''\<rparr>]\<rparr>"
    by simp
  with h1 h2 h3 h4 show ?thesis by blast
qed

text \<open>
  The claim C1 as the specification words it, with the marker \<^verbatim>\<open>--boundary--\<close>
  itself removed, fails.  When the payload ends with the marker, the part keeps the
  bytes \<^verbatim>\<open>\r\n--B\<close> that the payload without the marker does not have.  When the
  marker is followed by CRLF and only the marker is removed, the part of the shorter
  payload keeps a CRLF.  With the boundary \<^verbatim>\<open>-\<close> the two payloads differ even when
  the whole terminal line is removed.
\<close>

theorem terminal_marker_removed_differs:
  "map_sum id (map content \<circ> parts)
     (MultipartDecoder_init latin1_only (''--B'' @ CRLF @ CRLF @ ''abc'' @ CRLF @ ''--B--'')
        ''multipart/form-data; boundary=B'' ''latin-1'') = Inr [''abc'' @ CRLF @ ''--B''] \<and>
   map_sum id (map content \<circ> parts)
     (MultipartDecoder_init latin1_only (''--B'' @ CRLF @ CRLF @ ''abc'' @ CRLF)
        ''multipart/form-data; boundary=B'' ''latin-1'') = Inr [''abc''] \<and>
   map_sum id (map content \<circ> parts)
     (MultipartDecoder_init latin1_only (''--B'' @ CRLF @ CRLF @ ''abc'' @ CRLF @ ''--B--'' @ CRLF)
        ''multipart/form-data; boundary=B'' ''latin-1'') = Inr [''abc''] \<and>
   map_sum id (map content \<circ> parts)
     (MultipartDecoder_init latin1_only (''--B'' @ CRLF @ CRLF @ ''abc'' @ CRLF @ CRLF)
        ''multipart/form-data; boundary=B'' ''latin-1'') = Inr [''abc'' @ CRLF] \<and>
   map_sum id (map content \<circ> parts)
     (MultipartDecoder_init latin1_only (''---'' @ CRLF @ CRLF @ ''abc'' @ CRLF @ ''-----'' @ CRLF)
        ''multipart/form-data; boundary=-'' ''latin-1'') = Inr [''abc'' @ CRLF] \<and>
   map_sum id (map content \<circ> parts)
     (MultipartDecoder_init latin1_only (''---'' @ CRLF @ CRLF @ ''abc'' @ CRLF)
        ''multipart/form-data; boundary=-'' ''latin-1'') = Inr [''abc'']"
  by code_simp

end
